theory Spec2Isabelle
  imports Complex_Main "HOL-Library.Multiset" "HOL-Library.Word" "HOL-Library.Log_Nat"
begin

section \<open>Arrays\<close>

text \<open>
  The module \<^verbatim>\<open>sf_tools/base/np_adjust.py\<close> consists of thin wrappers around numpy
  routines. An \<^verbatim>\<open>np.ndarray\<close> is modelled the way numpy stores a C-contiguous array: its
  shape (one size per axis) and its elements in row-major order. Exceptions are values of
  \<open>py_error\<close>; a function that can raise returns \<open>py_error + result\<close>.
\<close>

datatype py_error = ValueError | IndexError | TypeError

datatype 'a ndarray = NDArray (shape: "nat list") (flat: "'a list")

definition ndim :: "'a ndarray \<Rightarrow> nat" where
  "ndim A = length (shape A)"

text \<open>The invariant of every numpy array: the buffer holds one element per cell.\<close>

definition wf_array :: "'a ndarray \<Rightarrow> bool" where
  "wf_array A \<longleftrightarrow> length (flat A) = prod_list (shape A)"

text \<open>A multi-index is valid for a shape when it has one in-range entry per axis.\<close>

definition valid_index :: "nat list \<Rightarrow> nat list \<Rightarrow> bool" where
  "valid_index s idx \<longleftrightarrow> list_all2 (<) idx s"

text \<open>Row-major position of a multi-index (\<^verbatim>\<open>np.ravel_multi_index\<close>) and its inverse
  (\<^verbatim>\<open>np.unravel_index\<close>).\<close>

fun ravel_index :: "nat list \<Rightarrow> nat list \<Rightarrow> nat" where
  "ravel_index (d # ds) (i # is) = i * prod_list ds + ravel_index ds is"
| "ravel_index _ _ = 0"

fun unravel_index :: "nat list \<Rightarrow> nat \<Rightarrow> nat list" where
  "unravel_index [] n = []"
| "unravel_index (d # ds) n = (n div prod_list ds) # unravel_index ds (n mod prod_list ds)"

text \<open>\<open>item A idx\<close> is \<^verbatim>\<open>A[idx]\<close> for a valid multi-index; \<open>from_function s f\<close> is the
  array of shape \<open>s\<close> whose cell at \<open>idx\<close> holds \<open>f idx\<close>.\<close>

definition item :: "'a ndarray \<Rightarrow> nat list \<Rightarrow> 'a" where
  "item A idx = flat A ! ravel_index (shape A) idx"

definition from_function :: "nat list \<Rightarrow> (nat list \<Rightarrow> 'a) \<Rightarrow> 'a ndarray" where
  "from_function s f = NDArray s (map (\<lambda>n. f (unravel_index s n)) [0..<prod_list s])"

fun bind_result :: "'e + 'a \<Rightarrow> ('a \<Rightarrow> 'e + 'b) \<Rightarrow> 'e + 'b" where
  "bind_result (Inl e) f = Inl e"
| "bind_result (Inr x) f = f x"

section \<open>The numpy routines the module calls\<close>

subsection \<open>Reversal of an axis and rotation by two quarter turns\<close>

text \<open>\<^verbatim>\<open>np.flip(m, axis)\<close>: the cell at position \<open>i\<close> of the axis comes from position
  \<open>n - 1 - i\<close>.\<close>

definition np_flip :: "'a ndarray \<Rightarrow> nat \<Rightarrow> 'a ndarray" where
  "np_flip A ax =
     from_function (shape A) (\<lambda>idx. item A (idx[ax := shape A ! ax - 1 - idx ! ax]))"

text \<open>\<^verbatim>\<open>np.rot90(m, 2)\<close>: numpy rejects an input of fewer than two axes and otherwise
  returns \<^verbatim>\<open>flip(flip(m, 0), 1)\<close>.\<close>

definition np_rot90_2 :: "'a ndarray \<Rightarrow> py_error + 'a ndarray" where
  "np_rot90_2 m = (if ndim m < 2 then Inl ValueError else Inr (np_flip (np_flip m 0) 1))"

subsection \<open>Iteration over the leading axis and stacking\<close>

text \<open>\<open>subarray A k\<close> is \<^verbatim>\<open>A[k]\<close>; iterating over an array yields these in order, and
  iterating over a 0-d array raises \<^verbatim>\<open>TypeError\<close>.\<close>

definition subarray :: "'a ndarray \<Rightarrow> nat \<Rightarrow> 'a ndarray" where
  "subarray A k =
     (let ds = tl (shape A); p = prod_list ds
      in NDArray ds (take p (drop (k * p) (flat A))))"

definition iterate :: "'a ndarray \<Rightarrow> py_error + 'a ndarray list" where
  "iterate A =
     (case shape A of [] \<Rightarrow> Inl TypeError | d # ds \<Rightarrow> Inr (map (subarray A) [0..<d]))"

text \<open>A list comprehension whose body may raise stops at the first exception.\<close>

fun map_result :: "('a \<Rightarrow> 'e + 'b) \<Rightarrow> 'a list \<Rightarrow> 'e + 'b list" where
  "map_result f [] = Inr []"
| "map_result f (x # xs) =
     (case f x of Inl e \<Rightarrow> Inl e
      | Inr y \<Rightarrow> (case map_result f xs of Inl e \<Rightarrow> Inl e | Inr ys \<Rightarrow> Inr (y # ys)))"

text \<open>\<^verbatim>\<open>np.array\<close> of a list of arrays: equally shaped arrays are stacked along a new
  leading axis, the empty list gives the empty 1-d array of shape \<open>(0,)\<close>, and arrays of
  different shapes are rejected.\<close>

definition np_array :: "'a ndarray list \<Rightarrow> py_error + 'a ndarray" where
  "np_array xs =
     (case xs of [] \<Rightarrow> Inr (NDArray [0] [])
      | x # _ \<Rightarrow>
          if list_all (\<lambda>y. shape y = shape x) xs
          then Inr (NDArray (length xs # shape x) (concat (map flat xs)))
          else Inl ValueError)"

subsection \<open>Padding\<close>

text \<open>\<^verbatim>\<open>np.repeat(a, k)\<close> without an axis: every element of the flattened input \<open>k\<close>
  times in a row.\<close>

definition np_repeat :: "'a ndarray \<Rightarrow> nat \<Rightarrow> 'a ndarray" where
  "np_repeat a k = NDArray [length (flat a) * k] (concat (map (replicate k) (flat a)))"

text \<open>Constant padding with the default fill value zero: \<open>pw\<close> holds one pair
  (before, after) per axis.\<close>

definition inside :: "nat list \<Rightarrow> (nat \<times> nat) list \<Rightarrow> nat list \<Rightarrow> bool" where
  "inside s pw idx \<longleftrightarrow>
     list_all (\<lambda>(i, d, b). b \<le> i \<and> i < b + d) (zip idx (zip s (map fst pw)))"

definition pad_constant :: "'a::zero ndarray \<Rightarrow> (nat \<times> nat) list \<Rightarrow> 'a ndarray" where
  "pad_constant A pw =
     from_function (map2 (\<lambda>d (b, a). b + d + a) (shape A) pw)
       (\<lambda>idx. if inside (shape A) pw idx then item A (map2 (-) idx (map fst pw)) else 0)"

text \<open>\<^verbatim>\<open>np.pad(array, pad_width, 'constant')\<close> for a \<^verbatim>\<open>pad_width\<close> given as a sequence of
  pairs: numpy broadcasts it to one pair per axis, which works when there is one pair per
  axis or a single pair, and raises \<^verbatim>\<open>ValueError\<close> otherwise.\<close>

definition np_pad :: "'a::zero ndarray \<Rightarrow> (nat \<times> nat) list \<Rightarrow> py_error + 'a ndarray" where
  "np_pad A pw =
     (if length pw = ndim A then Inr (pad_constant A pw)
      else if length pw = 1 then Inr (pad_constant A (replicate (ndim A) (hd pw)))
      else Inl ValueError)"

subsection \<open>Rolling and transposition\<close>

definition np_arange :: "nat \<Rightarrow> nat list" where
  "np_arange n = [0..<n]"

text \<open>\<^verbatim>\<open>np.roll(a, shift)\<close> on a 1-d array of length \<open>n\<close>: the shift is reduced modulo
  \<open>n\<close>, the last \<open>shift\<close> elements come first; the empty array is returned as it is.\<close>

definition np_roll :: "'a list \<Rightarrow> int \<Rightarrow> 'a list" where
  "np_roll a shift =
     (if a = [] then []
      else let n = length a; k = nat (shift mod int n)
           in drop (n - k) a @ take (n - k) a)"

fun index_of :: "'a list \<Rightarrow> 'a \<Rightarrow> nat" where
  "index_of [] x = 0"
| "index_of (y # ys) x = (if x = y then 0 else Suc (index_of ys x))"

text \<open>\<^verbatim>\<open>np.transpose(a, axes)\<close>: \<open>axes\<close> must be a permutation of the axis numbers; axis
  \<open>k\<close> of the result is axis \<open>axes[k]\<close> of the input, so the result's cell at \<open>j\<close> is the
  input's cell at the index \<open>idx\<close> with \<open>idx[axes[k]] = j[k]\<close>.\<close>

definition source_index :: "nat list \<Rightarrow> nat list \<Rightarrow> nat list" where
  "source_index axes j = map (\<lambda>m. j ! index_of axes m) [0..<length axes]"

definition np_transpose :: "'a ndarray \<Rightarrow> nat list \<Rightarrow> py_error + 'a ndarray" where
  "np_transpose A axes =
     (if length axes \<noteq> ndim A \<or> \<not> list_all (\<lambda>a. a < ndim A) axes \<or> \<not> distinct axes
      then Inl ValueError
      else Inr (from_function (map ((!) (shape A)) axes)
                  (\<lambda>j. item A (source_index axes j))))"

section \<open>The module\<close>

text \<open>\<^verbatim>\<open>return np.rot90(data, 2)\<close>\<close>

definition rotate_arr :: "'a ndarray \<Rightarrow> py_error + 'a ndarray" where
  "rotate_arr data = np_rot90_2 data"

text \<open>\<^verbatim>\<open>return np.array([rotate(x) for x in data])\<close>\<close>

definition rotate_stack :: "'a ndarray \<Rightarrow> py_error + 'a ndarray" where
  "rotate_stack data =
     bind_result (iterate data) (\<lambda>xs. bind_result (map_result rotate_arr xs) np_array)"

text \<open>The padding argument is an integer or a pair of integers.\<close>

datatype padding = PadInt int | PadPair int int

text \<open>
  \<^verbatim>\<open>
  data = np.array(data)
  shape = np.array(data.shape)
  if shape.ndim == 1:
      shape = np.repeat(shape, 2)
  return np.pad(data, ((shape[0], shape[0]), (shape[1], shape[1])), 'constant')
  \<close>
  \<^verbatim>\<open>shape\<close> is the 1-d array of the sizes of \<^verbatim>\<open>data\<close>; reading \<^verbatim>\<open>shape[0]\<close> of an empty
  array raises \<^verbatim>\<open>IndexError\<close>.
\<close>

definition shape_array :: "'a ndarray \<Rightarrow> nat ndarray" where
  "shape_array data = NDArray [ndim data] (shape data)"

definition pad2d :: "'a::zero ndarray \<Rightarrow> padding \<Rightarrow> py_error + 'a ndarray" where
  "pad2d data padding =
     (let shape0 = shape_array data;
          shape1 = (if ndim shape0 = 1 then np_repeat shape0 2 else shape0);
          v = flat shape1
      in if length v < 2 then Inl IndexError
         else np_pad data [(v ! 0, v ! 0), (v ! 1, v ! 1)])"

text \<open>
  The two bin functions do arithmetic on the elements of \<^verbatim>\<open>vals\<close>. What numpy computes
  there depends on the dtype of the array, which the source does not fix: sums and
  differences are taken in the dtype of \<^verbatim>\<open>vals\<close> (fixed-width integers wrap around,
  floating-point numbers round), and \<^verbatim>\<open>/ 2.0\<close> is true division with a floating-point
  result. The operations are therefore parameters of the model, one per operator of the
  source:
  \<^item> \<open>arr_add\<close>: \<^verbatim>\<open>+\<close> of two elements of arrays of the dtype of \<^verbatim>\<open>vals\<close>;
  \<^item> \<open>arr_div2\<close>: \<^verbatim>\<open>/ 2.0\<close> on an element of such an array;
  \<^item> \<open>sc_sub\<close>: \<^verbatim>\<open>-\<close> of two scalars of that dtype;
  \<^item> \<open>sc_div2\<close>: \<^verbatim>\<open>/ 2.0\<close> on such a scalar;
  \<^item> \<open>arr_shift\<close>: \<^verbatim>\<open>+\<close> of an element of the floating-point array and the
    floating-point scalar.
\<close>

record ('a, 'f, 'g) arithmetic =
  arr_add :: "'a \<Rightarrow> 'a \<Rightarrow> 'a"
  arr_div2 :: "'a \<Rightarrow> 'f"
  sc_sub :: "'a \<Rightarrow> 'a \<Rightarrow> 'a"
  sc_div2 :: "'a \<Rightarrow> 'g"
  arr_shift :: "'f \<Rightarrow> 'g \<Rightarrow> 'f"

text \<open>
  \<^verbatim>\<open>return (vals[:-1] + vals[1:]) / 2.0\<close>
  The bin edges are a 1-d array, given by the list of its elements. The two slices never
  raise and have the same length.
\<close>

definition x_bins :: "('a, 'f, 'g) arithmetic \<Rightarrow> 'a list \<Rightarrow> 'f list" where
  "x_bins ar vals = map (arr_div2 ar) (map2 (arr_add ar) (butlast vals) (tl vals))"

text \<open>
  \<^verbatim>\<open>return x_bins(vals) + (vals[1] - vals[0]) / 2.0\<close>
  \<^verbatim>\<open>vals[1]\<close> raises \<^verbatim>\<open>IndexError\<close> on fewer than two edges.
\<close>

definition x_bins_step :: "('a, 'f, 'g) arithmetic \<Rightarrow> 'a list \<Rightarrow> py_error + 'f list" where
  "x_bins_step ar vals =
     (let centres = x_bins ar vals
      in if length vals < 2 then Inl IndexError
         else Inr (map (\<lambda>c. arr_shift ar c (sc_div2 ar (sc_sub ar (vals ! 1) (vals ! 0))))
                     centres))"

subsection \<open>The arithmetic of an array of dtype int64\<close>

text \<open>
  An int64 is a 64-bit word read as a signed number; \<^verbatim>\<open>+\<close> and \<^verbatim>\<open>-\<close> on int64 arrays
  and scalars wrap around modulo \<open>2 ^ 64\<close>. \<^verbatim>\<open>/ 2.0\<close> converts the int64 to float64 and
  divides by two. A finite float64 is given by the real number it denotes.

  \<open>round53 n\<close> rounds the integer \<open>n\<close> to the nearest integer with at most 53 significant
  bits, ties to the even significand, as IEEE 754 binary64 does in its default rounding
  mode.
\<close>

definition round53 :: "int \<Rightarrow> int" where
  "round53 n =
     (let m = \<bar>n\<bar>;
          e = nat (bitlen m - 53);
          q = m div 2 ^ e;
          r = m mod 2 ^ e;
          q' = (if 2 ^ e < 2 * r \<or> (2 * r = 2 ^ e \<and> odd q) then q + 1 else q)
      in sgn n * (q' * 2 ^ e))"

text \<open>The conversion of an int64 to float64 rounds to 53 significant bits; no int64 is out
  of the range of float64.\<close>

definition float64_of_int64 :: "64 word \<Rightarrow> real" where
  "float64_of_int64 w = real_of_int (round53 (sint w))"

text \<open>Halving a float64 that came from an int64 is exact: it lowers the exponent by one
  and stays far above the subnormal range.\<close>

definition int64_div2 :: "64 word \<Rightarrow> real" where
  "int64_div2 w = float64_of_int64 w / 2"

text \<open>The float64 sum of two finite float64 whose sum does not overflow: both are integer
  multiples of \<open>2 ^ -1074\<close>, so is their exact sum, and IEEE 754 returns it rounded to 53
  significant bits. On an int64 array the sum only meets halves of converted int64, which
  are finite and below \<open>2 ^ 63\<close> in magnitude.\<close>

definition float64_add :: "real \<Rightarrow> real \<Rightarrow> real" where
  "float64_add x y = real_of_int (round53 \<lfloor>(x + y) * 2 ^ 1074\<rfloor>) / 2 ^ 1074"

definition int64_arith :: "(64 word, real, real) arithmetic" where
  "int64_arith =
     \<lparr>arr_add = (+), arr_div2 = int64_div2, sc_sub = (-), sc_div2 = int64_div2,
      arr_shift = float64_add\<rparr>"

text \<open>
  \<^verbatim>\<open>
  axis_roll = np.roll(np.arange(data.ndim), roll)
  return np.transpose(data, axes=axis_roll)
  \<close>
  \<^verbatim>\<open>roll\<close> defaults to 1.
\<close>

definition roll_default :: int where
  "roll_default = 1"

definition fancy_transpose :: "'a ndarray \<Rightarrow> int \<Rightarrow> py_error + 'a ndarray" where
  "fancy_transpose data roll =
     (let axis_roll = np_roll (np_arange (ndim data)) roll
      in np_transpose data axis_roll)"

text \<open>\<^verbatim>\<open>return fancy_transpose(data)\<close>\<close>

definition ftr :: "'a ndarray \<Rightarrow> py_error + 'a ndarray" where
  "ftr data = fancy_transpose data roll_default"

text \<open>\<^verbatim>\<open>return fancy_transpose(data, -1)\<close>\<close>

definition ftl :: "'a ndarray \<Rightarrow> py_error + 'a ndarray" where
  "ftl data = fancy_transpose data (- 1)"

section \<open>Indexing\<close>

lemma valid_index_Nil [simp]: "valid_index [] idx \<longleftrightarrow> idx = []"
  by (simp add: valid_index_def)

lemma valid_index_Cons:
  "valid_index (d # ds) idx \<longleftrightarrow> (\<exists>i is. idx = i # is \<and> i < d \<and> valid_index ds is)"
  by (cases idx) (simp_all add: valid_index_def)

lemma valid_index_length: "valid_index s idx \<Longrightarrow> length idx = length s"
  by (simp add: valid_index_def list_all2_lengthD)

lemma valid_index_nth: "valid_index s idx \<Longrightarrow> k < length s \<Longrightarrow> idx ! k < s ! k"
  by (simp add: valid_index_def list_all2_conv_all_nth)

lemma valid_index_iff:
  "valid_index s idx \<longleftrightarrow> length idx = length s \<and> (\<forall>k < length s. idx ! k < s ! k)"
  by (auto simp: valid_index_def list_all2_conv_all_nth)

lemma ravel_index_less: "valid_index s idx \<Longrightarrow> ravel_index s idx < prod_list s"
proof (induction s arbitrary: idx)
  case Nil
  then show ?case by simp
next
  case (Cons d ds)
  then obtain i "is" where idx: "idx = i # is" and i: "i < d" and v: "valid_index ds is"
    by (auto simp: valid_index_Cons)
  have "i * prod_list ds + ravel_index ds is < Suc i * prod_list ds"
    using Cons.IH [OF v] by simp
  also have "\<dots> \<le> d * prod_list ds"
    using i by (intro mult_le_mono1) simp
  finally show ?case by (simp add: idx)
qed

lemma unravel_ravel: "valid_index s idx \<Longrightarrow> unravel_index s (ravel_index s idx) = idx"
proof (induction s arbitrary: idx)
  case Nil
  then show ?case by simp
next
  case (Cons d ds)
  then obtain i "is" where idx: "idx = i # is" and v: "valid_index ds is"
    by (auto simp: valid_index_Cons)
  have r: "ravel_index ds is < prod_list ds" by (rule ravel_index_less [OF v])
  then show ?case using Cons.IH [OF v] by (simp add: idx)
qed

lemma valid_unravel: "n < prod_list s \<Longrightarrow> valid_index s (unravel_index s n)"
proof (induction s arbitrary: n)
  case Nil
  then show ?case by simp
next
  case (Cons d ds)
  from Cons.prems have lt: "n < d * prod_list ds" by simp
  then have pos: "0 < prod_list ds" by (cases "prod_list ds = 0") simp_all
  have "n div prod_list ds < d"
    using lt pos by (simp add: less_mult_imp_div_less)
  moreover have "valid_index ds (unravel_index ds (n mod prod_list ds))"
    using pos by (intro Cons.IH) simp
  ultimately show ?case by (simp add: valid_index_Cons)
qed

lemma ravel_unravel: "n < prod_list s \<Longrightarrow> ravel_index s (unravel_index s n) = n"
proof (induction s arbitrary: n)
  case Nil
  then show ?case by simp
next
  case (Cons d ds)
  from Cons.prems have "n < d * prod_list ds" by simp
  then have pos: "0 < prod_list ds" by (cases "prod_list ds = 0") simp_all
  then have "ravel_index ds (unravel_index ds (n mod prod_list ds)) = n mod prod_list ds"
    by (intro Cons.IH) simp
  then show ?case by simp
qed

lemma shape_from_function [simp]: "shape (from_function s f) = s"
  by (simp add: from_function_def)

lemma wf_from_function [simp]: "wf_array (from_function s f)"
  by (simp add: from_function_def wf_array_def)

lemma ndim_from_function [simp]: "ndim (from_function s f) = length s"
  by (simp add: ndim_def)

lemma item_from_function: "valid_index s idx \<Longrightarrow> item (from_function s f) idx = f idx"
  by (simp add: item_def from_function_def ravel_index_less unravel_ravel)

lemma flat_as_items:
  assumes "wf_array A"
  shows "flat A = map (\<lambda>n. item A (unravel_index (shape A) n)) [0..<prod_list (shape A)]"
  using assms by (auto simp: wf_array_def item_def ravel_unravel intro!: nth_equalityI)

lemma array_ext:
  assumes "wf_array A" and "wf_array B" and "shape A = shape B"
    and "\<And>idx. valid_index (shape A) idx \<Longrightarrow> item A idx = item B idx"
  shows "A = B"
proof -
  have "flat A = flat B"
    unfolding flat_as_items [OF assms(1)] flat_as_items [OF assms(2)]
    using assms(3,4) by (simp add: valid_unravel)
  with assms(3) show ?thesis by (simp add: ndarray.expand)
qed

section \<open>Rotation\<close>

lemma valid_index_update:
  assumes "valid_index s idx" and "v < s ! ax"
  shows "valid_index s (idx[ax := v])"
proof -
  have "idx[ax := v] ! k < s ! k" if "k < length s" for k
    using that assms by (cases "k = ax") (simp_all add: valid_index_iff)
  then show ?thesis
    using assms(1) by (simp add: valid_index_iff)
qed

lemma shape_np_flip [simp]: "shape (np_flip A ax) = shape A"
  by (simp add: np_flip_def)

lemma wf_np_flip [simp]: "wf_array (np_flip A ax)"
  by (simp add: np_flip_def)

lemma item_np_flip:
  "valid_index (shape A) idx \<Longrightarrow>
     item (np_flip A ax) idx = item A (idx[ax := shape A ! ax - 1 - idx ! ax])"
  by (simp add: np_flip_def item_from_function)

lemma item_flip_flip:
  assumes "valid_index (shape A) (i # j # rest)"
  shows "item (np_flip (np_flip A 0) 1) (i # j # rest)
    = item A ((shape A ! 0 - 1 - i) # (shape A ! 1 - 1 - j) # rest)"
proof -
  from assms obtain r c ds where s: "shape A = r # c # ds" and "i < r" and j: "j < c"
    and "valid_index ds rest"
    by (cases "shape A"; cases "tl (shape A)")
       (auto simp: valid_index_def)
  have "valid_index (shape A) (i # (c - 1 - j) # rest)"
    using assms j by (simp add: s valid_index_Cons)
  then have "item (np_flip A 0) (i # (c - 1 - j) # rest)
      = item A ((r - 1 - i) # (c - 1 - j) # rest)"
    by (simp add: item_np_flip s)
  moreover have "item (np_flip (np_flip A 0) 1) (i # j # rest)
      = item (np_flip A 0) (i # (c - 1 - j) # rest)"
    using assms by (simp add: item_np_flip s)
  ultimately show ?thesis by (simp add: s)
qed

text \<open>
  Claim C5. For an array \<open>A\<close> of at least two axes, \<open>rotate_arr A\<close> returns an array of
  the shape of \<open>A\<close> whose cell at every index \<open>(i, j, ...)\<close> holds the cell of \<open>A\<close> at
  \<open>(rows - 1 - i, cols - 1 - j, ...)\<close>; and the rotation of the 3 by 3 array with
  rows \<open>[0,1,2]\<close>, \<open>[3,4,5]\<close>, \<open>[6,7,8]\<close> has the rows \<open>[8,7,6]\<close>, \<open>[5,4,3]\<close>, \<open>[2,1,0]\<close>.
\<close>

theorem rotate_half_turn:
  assumes "wf_array A" and "2 \<le> ndim A"
  shows "(\<exists>B. rotate_arr A = Inr B \<and> shape B = shape A \<and> wf_array B
      \<and> (\<forall>i j rest. valid_index (shape A) (i # j # rest) \<longrightarrow>
            item B (i # j # rest)
              = item A ((shape A ! 0 - 1 - i) # (shape A ! 1 - 1 - j) # rest)))
    \<and> rotate_arr (NDArray [3, 3] [0, 1, 2, 3, 4, 5, 6, 7, 8 :: int])
        = Inr (NDArray [3, 3] [8, 7, 6, 5, 4, 3, 2, 1, 0])"
proof
  let ?B = "np_flip (np_flip A 0) 1"
  have "rotate_arr A = Inr ?B"
    using assms(2) by (simp add: rotate_arr_def np_rot90_2_def)
  moreover have "shape ?B = shape A" and "wf_array ?B"
    by simp_all
  moreover have "\<forall>i j rest. valid_index (shape A) (i # j # rest) \<longrightarrow>
            item ?B (i # j # rest)
              = item A ((shape A ! 0 - 1 - i) # (shape A ! 1 - 1 - j) # rest)"
    using item_flip_flip by blast
  ultimately show "\<exists>B. rotate_arr A = Inr B \<and> shape B = shape A \<and> wf_array B
      \<and> (\<forall>i j rest. valid_index (shape A) (i # j # rest) \<longrightarrow>
            item B (i # j # rest)
              = item A ((shape A ! 0 - 1 - i) # (shape A ! 1 - 1 - j) # rest))"
    by blast
next
  show "rotate_arr (NDArray [3, 3] [0, 1, 2, 3, 4, 5, 6, 7, 8 :: int])
        = Inr (NDArray [3, 3] [8, 7, 6, 5, 4, 3, 2, 1, 0])"
    by code_simp
qed

theorem rotate_half_turn_witness:
  "wf_array (NDArray [2, 3] [1, 2, 3, 4, 5, 6 :: int])
    \<and> 2 \<le> ndim (NDArray [2, 3] [1, 2, 3, 4, 5, 6 :: int])
    \<and> (\<exists>B. rotate_arr (NDArray [2, 3] [1, 2, 3, 4, 5, 6 :: int]) = Inr B
          \<and> shape B = [2, 3] \<and> item B [0, 0] = 6 \<and> item B [1, 2] = 1)"
proof -
  let ?A = "NDArray [2, 3] [1, 2, 3, 4, 5, 6 :: int]"
  have w: "wf_array ?A" by (simp add: wf_array_def)
  have n: "2 \<le> ndim ?A" by (simp add: ndim_def)
  from rotate_half_turn [OF w n] obtain B where b: "rotate_arr ?A = Inr B"
    and s: "shape B = shape ?A"
    and e: "\<forall>i j rest. valid_index (shape ?A) (i # j # rest) \<longrightarrow>
            item B (i # j # rest)
              = item ?A ((shape ?A ! 0 - 1 - i) # (shape ?A ! 1 - 1 - j) # rest)"
    by blast
  have "item B [0, 0] = 6"
    using e [rule_format, of 0 0 "[]"] by (simp add: valid_index_def item_def)
  moreover have "item B [1, 2] = 1"
    using e [rule_format, of 1 2 "[]"] by (simp add: valid_index_def item_def)
  ultimately show ?thesis using w n b s by simp
qed

section \<open>Rotation of a stack\<close>

lemma map_result_all_Inr:
  "(\<And>x. x \<in> set xs \<Longrightarrow> f x = Inr (g x)) \<Longrightarrow> map_result f xs = Inr (map g xs)"
  by (induction xs) simp_all

lemma concat_block:
  "(\<And>y. y \<in> set ys \<Longrightarrow> length y = p) \<Longrightarrow> k < length ys \<Longrightarrow>
     take p (drop (k * p) (concat ys)) = ys ! k"
proof (induction ys arbitrary: k)
  case Nil
  then show ?case by simp
next
  case (Cons y ys)
  have len: "length y = p" by (simp add: Cons.prems(1))
  show ?case
  proof (cases k)
    case 0
    then show ?thesis by (simp add: len)
  next
    case (Suc k')
    have "take p (drop (k' * p) (concat ys)) = ys ! k'"
      using Cons.prems Suc by (intro Cons.IH) simp_all
    then show ?thesis by (simp add: Suc len)
  qed
qed

lemma length_concat_blocks:
  "(\<And>y. y \<in> set ys \<Longrightarrow> length y = p) \<Longrightarrow> length (concat ys) = length ys * p"
  by (induction ys) simp_all

lemma np_array_same_shape:
  assumes "xs \<noteq> []" and "\<And>x. x \<in> set xs \<Longrightarrow> shape x = s"
  shows "np_array xs = Inr (NDArray (length xs # s) (concat (map flat xs)))"
proof (cases xs)
  case Nil
  with assms(1) show ?thesis by simp
next
  case (Cons y ys)
  have "shape y = s" and "\<forall>z \<in> set ys. shape z = s"
    using assms(2) by (simp_all add: Cons)
  then show ?thesis
    by (simp add: np_array_def Cons list_all_iff)
qed

lemma shape_subarray [simp]: "shape (subarray A k) = tl (shape A)"
  by (simp add: subarray_def Let_def)

lemma length_flat_from_function [simp]: "length (flat (from_function s f)) = prod_list s"
  by (simp add: from_function_def)

lemma length_flat_np_flip [simp]: "length (flat (np_flip A ax)) = prod_list (shape A)"
  by (simp add: np_flip_def)

lemma rotate_stack_frames:
  assumes "shape A = d # ds" and "2 \<le> length ds" and "0 < d"
  shows "\<exists>B. rotate_stack A = Inr B \<and> shape B = shape A \<and> wf_array B
    \<and> (\<forall>k < d. rotate_arr (subarray A k) = Inr (subarray B k))"
proof -
  define R :: "'a ndarray \<Rightarrow> 'a ndarray" where "R x = np_flip (np_flip x 0) 1" for x
  define xs where "xs = map (subarray A) [0..<d]"
  define B where "B = NDArray (d # ds) (concat (map flat (map R xs)))"
  have shape_R: "shape (R x) = shape x" for x
    by (simp add: R_def)
  have rot: "rotate_arr (subarray A k) = Inr (R (subarray A k))" for k
    using assms(1,2) by (simp add: rotate_arr_def np_rot90_2_def ndim_def R_def)
  have it: "iterate A = Inr xs"
    by (simp add: iterate_def assms(1) xs_def)
  have mr: "map_result rotate_arr xs = Inr (map R xs)"
    by (rule map_result_all_Inr) (auto simp: xs_def rot)
  have ne: "map R xs \<noteq> []"
    using assms(3) by (simp add: xs_def)
  have shapes: "shape y = ds" if "y \<in> set (map R xs)" for y
    using that by (auto simp: xs_def shape_R assms(1))
  have len: "length (map R xs) = d"
    by (simp add: xs_def)
  have "np_array (map R xs) = Inr B"
    unfolding B_def len [symmetric] using ne shapes by (rule np_array_same_shape)
  with it mr have res: "rotate_stack A = Inr B"
    by (simp add: rotate_stack_def)
  have lens: "length y = prod_list ds" if "y \<in> set (map flat (map R xs))" for y
    using that by (auto simp: xs_def R_def assms(1))
  have wf: "wf_array B"
    using length_concat_blocks [of "map flat (map R xs)" "prod_list ds"] lens
    by (simp add: wf_array_def B_def xs_def)
  have frame: "subarray B k = R (subarray A k)" if "k < d" for k
  proof -
    have "take (prod_list ds) (drop (k * prod_list ds) (concat (map flat (map R xs))))
        = map flat (map R xs) ! k"
      using lens that by (intro concat_block) (simp_all add: xs_def)
    also have "\<dots> = flat (R (subarray A k))"
      using that by (simp add: xs_def)
    finally have "subarray B k = NDArray ds (flat (R (subarray A k)))"
      by (simp add: subarray_def B_def)
    moreover have "shape (R (subarray A k)) = ds"
      by (simp add: shape_R assms(1))
    ultimately show ?thesis
      by (simp add: ndarray.expand)
  qed
  from res wf frame rot show ?thesis
    by (auto simp: B_def assms(1))
qed

text \<open>
  Claim C6, as the code has it. For an array \<open>A\<close> of at least three axes and at least one
  frame along axis 0, \<open>rotate_stack A\<close> returns an array of the shape of \<open>A\<close> whose frame
  \<open>k\<close> is \<open>rotate_arr\<close> of frame \<open>k\<close> of \<open>A\<close>, for every frame index \<open>k\<close>.
\<close>

theorem rotate_stack_per_frame:
  assumes "wf_array A" and "3 \<le> ndim A" and "0 < shape A ! 0"
  shows "\<exists>B. rotate_stack A = Inr B \<and> shape B = shape A \<and> wf_array B
    \<and> (\<forall>k < shape A ! 0. rotate_arr (subarray A k) = Inr (subarray B k))"
proof -
  from assms(2) obtain d ds where s: "shape A = d # ds" and "2 \<le> length ds"
    by (cases "shape A") (simp_all add: ndim_def)
  moreover from assms(3) have "0 < d" by (simp add: s)
  ultimately show ?thesis
    using rotate_stack_frames [of A d ds] by simp
qed

theorem rotate_stack_per_frame_witness:
  "wf_array (NDArray [2, 2, 2] [0, 1, 2, 3, 4, 5, 6, 7 :: int])
    \<and> 3 \<le> ndim (NDArray [2, 2, 2] [0, 1, 2, 3, 4, 5, 6, 7 :: int])
    \<and> 0 < shape (NDArray [2, 2, 2] [0, 1, 2, 3, 4, 5, 6, 7 :: int]) ! 0
    \<and> (\<exists>B. rotate_stack (NDArray [2, 2, 2] [0, 1, 2, 3, 4, 5, 6, 7 :: int]) = Inr B
          \<and> shape B = [2, 2, 2]
          \<and> subarray B 0 = NDArray [2, 2] [3, 2, 1, 0]
          \<and> subarray B 1 = NDArray [2, 2] [7, 6, 5, 4])"
proof -
  let ?A = "NDArray [2, 2, 2] [0, 1, 2, 3, 4, 5, 6, 7 :: int]"
  have w: "wf_array ?A" by (simp add: wf_array_def)
  have n: "3 \<le> ndim ?A" by (simp add: ndim_def)
  have p: "0 < shape ?A ! 0" by simp
  from rotate_stack_per_frame [OF w n p] obtain B where b: "rotate_stack ?A = Inr B"
    and s: "shape B = shape ?A"
    and e: "\<forall>k < shape ?A ! 0. rotate_arr (subarray ?A k) = Inr (subarray B k)"
    by blast
  have "rotate_arr (subarray ?A 0) = Inr (NDArray [2, 2] [3, 2, 1, 0])"
    by code_simp
  with e have "subarray B 0 = NDArray [2, 2] [3, 2, 1, 0]" by simp
  moreover have "rotate_arr (subarray ?A 1) = Inr (NDArray [2, 2] [7, 6, 5, 4])"
    by code_simp
  with e have "subarray B 1 = NDArray [2, 2] [7, 6, 5, 4]" by simp
  ultimately show ?thesis using w n p b s by simp
qed

text \<open>
  Claim C6 as stated, for every array of at least three axes, fails on an empty stack:
  with no frame the list of rotated frames is empty and \<^verbatim>\<open>np.array([])\<close> has shape
  \<open>(0,)\<close>: the shape of a stack of shape \<open>(0, 1, 1)\<close> is not kept.
\<close>

theorem rotate_stack_empty_counterexample:
  "wf_array (NDArray [0, 1, 1] ([] :: int list))
    \<and> 3 \<le> ndim (NDArray [0, 1, 1] ([] :: int list))
    \<and> rotate_stack (NDArray [0, 1, 1] ([] :: int list)) = Inr (NDArray [0] [])
    \<and> shape (NDArray [0] ([] :: int list)) \<noteq> shape (NDArray [0, 1, 1] ([] :: int list))"
  by (simp add: wf_array_def ndim_def rotate_stack_def iterate_def np_array_def)

section \<open>Padding\<close>

lemma pad2d_rank2:
  assumes "shape A = [r, c]"
  shows "pad2d A p = Inr (pad_constant A [(r, r), (r, r)])"
  using assms
  by (simp add: pad2d_def shape_array_def np_repeat_def np_pad_def ndim_def numeral_2_eq_2)

lemma valid_index_pair: "valid_index [m, n] [i, j] \<longleftrightarrow> i < m \<and> j < n"
  by (simp add: valid_index_def)

lemma item_pad_constant_rank2:
  assumes "shape A = [r, c]" and "i < a + r + a'" and "j < b + c + b'"
  shows "item (pad_constant A [(a, a'), (b, b')]) [i, j]
    = (if a \<le> i \<and> i < a + r \<and> b \<le> j \<and> j < b + c then item A [i - a, j - b] else 0)"
proof -
  have "valid_index [a + r + a', b + c + b'] [i, j]"
    using assms(2,3) by (simp add: valid_index_pair)
  then show ?thesis
    by (simp add: pad_constant_def assms(1) item_from_function inside_def)
qed

text \<open>
  Claim C3. On an array of two axes the result of \<open>pad2d\<close> is the same for any two padding
  arguments, and the border added on each side of both axes is as wide as the array has
  rows: the result has shape \<open>(rows + 2 * rows, cols + 2 * rows)\<close>, holds the input at
  offset \<open>(rows, rows)\<close> and zero elsewhere.
\<close>

theorem pad2d_ignores_padding:
  assumes "wf_array A" and "shape A = [r, c]"
  shows "pad2d A p = pad2d A q
    \<and> (\<exists>B. pad2d A p = Inr B \<and> shape B = [r + 2 * r, c + 2 * r] \<and> wf_array B
          \<and> (\<forall>i j. i < r + 2 * r \<longrightarrow> j < c + 2 * r \<longrightarrow>
                item B [i, j]
                  = (if r \<le> i \<and> i < r + r \<and> r \<le> j \<and> j < r + c
                     then item A [i - r, j - r] else 0)))"
proof
  show "pad2d A p = pad2d A q"
    by (simp add: pad2d_rank2 [OF assms(2)])
next
  let ?B = "pad_constant A [(r, r), (r, r)]"
  have "pad2d A p = Inr ?B"
    by (rule pad2d_rank2 [OF assms(2)])
  moreover have "shape ?B = [r + 2 * r, c + 2 * r]"
    by (simp add: pad_constant_def assms(2))
  moreover have "wf_array ?B"
    by (simp add: pad_constant_def)
  moreover have "item ?B [i, j]
      = (if r \<le> i \<and> i < r + r \<and> r \<le> j \<and> j < r + c then item A [i - r, j - r] else 0)"
    if "i < r + 2 * r" and "j < c + 2 * r" for i j
    using that by (intro item_pad_constant_rank2 [OF assms(2)]) simp_all
  ultimately show "\<exists>B. pad2d A p = Inr B \<and> shape B = [r + 2 * r, c + 2 * r] \<and> wf_array B
          \<and> (\<forall>i j. i < r + 2 * r \<longrightarrow> j < c + 2 * r \<longrightarrow>
                item B [i, j]
                  = (if r \<le> i \<and> i < r + r \<and> r \<le> j \<and> j < r + c
                     then item A [i - r, j - r] else 0))"
    by blast
qed

theorem pad2d_ignores_padding_witness:
  "wf_array (NDArray [1, 2] [5, 7 :: int])
    \<and> shape (NDArray [1, 2] [5, 7 :: int]) = [1, 2]
    \<and> pad2d (NDArray [1, 2] [5, 7 :: int]) (PadInt 0)
        = pad2d (NDArray [1, 2] [5, 7 :: int]) (PadPair 4 9)
    \<and> (\<exists>B. pad2d (NDArray [1, 2] [5, 7 :: int]) (PadInt 0) = Inr B
          \<and> shape B = [3, 4] \<and> item B [1, 1] = 5 \<and> item B [1, 2] = 7
          \<and> item B [0, 1] = 0 \<and> item B [1, 3] = 0)"
proof -
  let ?A = "NDArray [1, 2] [5, 7 :: int]"
  have w: "wf_array ?A" by (simp add: wf_array_def)
  have s: "shape ?A = [1, 2]" by simp
  note t = pad2d_ignores_padding [OF w s, of "PadInt 0" "PadPair 4 9"]
  from t have eq: "pad2d ?A (PadInt 0) = pad2d ?A (PadPair 4 9)" by blast
  from t obtain B where b: "pad2d ?A (PadInt 0) = Inr B"
    and sb: "shape B = [1 + 2 * 1, 2 + 2 * 1]"
    and e: "\<forall>i j. i < 1 + 2 * 1 \<longrightarrow> j < 2 + 2 * 1 \<longrightarrow>
                item B [i, j]
                  = (if 1 \<le> i \<and> i < 1 + 1 \<and> 1 \<le> j \<and> j < 1 + 2
                     then item ?A [i - 1, j - 1] else 0)"
    by blast
  have "item B [1, 1] = 5"
    using e [rule_format, of 1 1] by (simp add: item_def)
  moreover have "item B [1, 2] = 7"
    using e [rule_format, of 1 2] by (simp add: item_def)
  moreover have "item B [0, 1] = 0"
    using e [rule_format, of 0 1] by simp
  moreover have "item B [1, 3] = 0"
    using e [rule_format, of 1 3] by simp
  ultimately show ?thesis using w s eq b sb by simp
qed

text \<open>
  Claim C1 says that \<open>pad2d\<close> adds a border of the width its padding argument gives. On the
  example of the function's own docstring, the 3 by 3 array of 0 to 8 with padding
  \<open>(1, 1)\<close>, the code returns a 9 by 9 array with the input at offset \<open>(3, 3)\<close>, not the
  5 by 5 array the docstring shows.
\<close>

theorem pad2d_docstring_example:
  "pad2d (NDArray [3, 3] [0, 1, 2, 3, 4, 5, 6, 7, 8 :: int]) (PadPair 1 1)
    = Inr (NDArray [9, 9]
       [0, 0, 0, 0, 0, 0, 0, 0, 0,
        0, 0, 0, 0, 0, 0, 0, 0, 0,
        0, 0, 0, 0, 0, 0, 0, 0, 0,
        0, 0, 0, 0, 1, 2, 0, 0, 0,
        0, 0, 0, 3, 4, 5, 0, 0, 0,
        0, 0, 0, 6, 7, 8, 0, 0, 0,
        0, 0, 0, 0, 0, 0, 0, 0, 0,
        0, 0, 0, 0, 0, 0, 0, 0, 0,
        0, 0, 0, 0, 0, 0, 0, 0, 0])
    \<and> pad2d (NDArray [3, 3] [0, 1, 2, 3, 4, 5, 6, 7, 8 :: int]) (PadPair 1 1)
    \<noteq> Inr (NDArray [5, 5]
       [0, 0, 0, 0, 0,
        0, 0, 1, 2, 0,
        0, 3, 4, 5, 0,
        0, 6, 7, 8, 0,
        0, 0, 0, 0, 0])"
  by code_simp

text \<open>
  Claim C2 says that padding by zero returns the input. The code returns a 3 by 3 array
  for the 1 by 1 array holding \<open>1\<close>, with padding \<open>0\<close> as with padding \<open>(0, 0)\<close>.
\<close>

theorem pad2d_zero_not_identity:
  "pad2d (NDArray [1, 1] [1 :: int]) (PadInt 0)
     = Inr (NDArray [3, 3] [0, 0, 0, 0, 1, 0, 0, 0, 0])
    \<and> pad2d (NDArray [1, 1] [1 :: int]) (PadPair 0 0)
     = Inr (NDArray [3, 3] [0, 0, 0, 0, 1, 0, 0, 0, 0])"
  by code_simp

text \<open>An array of more than two axes is rejected, whatever the padding argument.\<close>

lemma pad2d_rank_above_2:
  assumes "2 < ndim A"
  shows "pad2d A p = Inl ValueError"
proof -
  from assms obtain a b c ds where "shape A = a # b # c # ds"
    by (cases "shape A"; cases "tl (shape A)"; cases "tl (tl (shape A))")
       (simp_all add: ndim_def)
  then show ?thesis
    by (simp add: pad2d_def shape_array_def np_repeat_def np_pad_def ndim_def numeral_2_eq_2)
qed

text \<open>
  Claim C4 says that \<open>pad2d\<close> succeeds on an array of more than two axes. The code hands
  \<^verbatim>\<open>np.pad\<close> a pair for each of two axes, which numpy cannot broadcast to three axes or
  more: the call raises \<^verbatim>\<open>ValueError\<close>.
\<close>

theorem pad2d_rank3_raises:
  "pad2d (NDArray [1, 2, 3] [0, 1, 2, 3, 4, 5 :: int]) (PadPair 0 0) = Inl ValueError"
  by code_simp

section \<open>Transposition\<close>

lemma index_of_nth: "distinct xs \<Longrightarrow> k < length xs \<Longrightarrow> index_of xs (xs ! k) = k"
proof (induction xs arbitrary: k)
  case Nil
  then show ?case by simp
next
  case (Cons y ys)
  then show ?case by (cases k) auto
qed

lemma index_of_less: "x \<in> set xs \<Longrightarrow> index_of xs x < length xs"
  by (induction xs) auto

lemma nth_index_of: "x \<in> set xs \<Longrightarrow> xs ! index_of xs x = x"
  by (induction xs) auto

lemma permutation_set:
  assumes "length axes = n" and "distinct axes" and "\<forall>a \<in> set axes. a < n"
  shows "set axes = {0..<n}"
proof (rule card_subset_eq)
  show "finite {0..<n}" by simp
  show "set axes \<subseteq> {0..<n}" using assms(3) by auto
  show "card (set axes) = card {0..<n}"
    using assms(1,2) by (simp add: distinct_card)
qed

lemma permutation_mset:
  assumes "length axes = n" and "distinct axes" and "\<forall>a \<in> set axes. a < n"
  shows "mset axes = mset [0..<n]"
proof -
  have "set axes = set [0..<n]"
    using permutation_set [OF assms] by simp
  then show ?thesis
    using assms(2) set_eq_iff_mset_eq_distinct [of axes "[0..<n]"] by simp
qed

lemma gather_source_index:
  assumes "length axes = n" and "distinct axes" and "\<forall>a \<in> set axes. a < n"
    and "length j = n"
  shows "map ((!) (source_index axes j)) axes = j"
proof (rule nth_equalityI)
  show "length (map ((!) (source_index axes j)) axes) = length j"
    using assms(1,4) by simp
next
  fix k assume "k < length (map ((!) (source_index axes j)) axes)"
  then have k: "k < length axes" by simp
  then have "axes ! k < length axes"
    using assms(1,3) by simp
  then have "source_index axes j ! (axes ! k) = j ! index_of axes (axes ! k)"
    by (simp add: source_index_def)
  then show "map ((!) (source_index axes j)) axes ! k = j ! k"
    using k assms(2) by (simp add: index_of_nth)
qed

lemma source_index_gather:
  assumes "length axes = n" and "distinct axes" and "\<forall>a \<in> set axes. a < n"
    and "length idx = n"
  shows "source_index axes (map ((!) idx) axes) = idx"
proof (rule nth_equalityI)
  show "length (source_index axes (map ((!) idx) axes)) = length idx"
    using assms(1,4) by (simp add: source_index_def)
next
  fix m assume "m < length (source_index axes (map ((!) idx) axes))"
  then have m: "m < length axes" by (simp add: source_index_def)
  then have "m \<in> set axes"
    using permutation_set [OF assms(1-3)] assms(1) by simp
  then have "index_of axes m < length axes" and "axes ! index_of axes m = m"
    by (simp_all add: index_of_less nth_index_of)
  then show "source_index axes (map ((!) idx) axes) ! m = idx ! m"
    using m by (simp add: source_index_def)
qed

lemma valid_index_gather:
  assumes "\<forall>a \<in> set axes. a < length s" and "valid_index s idx"
  shows "valid_index (map ((!) s) axes) (map ((!) idx) axes)"
  using assms by (simp add: valid_index_iff)

lemma valid_index_source:
  assumes "length axes = length s" and "distinct axes" and "\<forall>a \<in> set axes. a < length s"
    and "valid_index (map ((!) s) axes) j"
  shows "valid_index s (source_index axes j)"
proof -
  have "source_index axes j ! m < s ! m" if "m < length s" for m
  proof -
    have "m \<in> set axes"
      using permutation_set [OF assms(1-3)] that by simp
    then have i: "index_of axes m < length axes" and e: "axes ! index_of axes m = m"
      by (simp_all add: index_of_less nth_index_of)
    have "j ! index_of axes m < map ((!) s) axes ! index_of axes m"
      using assms(4) i by (simp add: valid_index_iff)
    then show ?thesis
      using i e that assms(1) by (simp add: source_index_def)
  qed
  then show ?thesis
    using assms(1) by (simp add: valid_index_iff source_index_def)
qed

lemma prod_list_gather:
  fixes s :: "nat list"
  assumes "length axes = length s" and "distinct axes" and "\<forall>a \<in> set axes. a < length s"
  shows "prod_list (map ((!) s) axes) = prod_list s"
proof -
  have "mset (map ((!) s) axes) = image_mset ((!) s) (mset [0..<length s])"
    using permutation_mset [OF assms] by simp
  also have "\<dots> = mset (map ((!) s) [0..<length s])"
    by simp
  also have "\<dots> = mset s"
    by (simp only: map_nth)
  finally have "prod_mset (mset (map ((!) s) axes)) = prod_mset (mset s)"
    by simp
  then show ?thesis
    by (simp only: prod_mset_prod_list)
qed

lemma mset_map_upt_permutation:
  assumes "\<And>n. n < p \<Longrightarrow> g n < p" and "\<And>n. n < p \<Longrightarrow> h (g n) = n"
  shows "mset (map g [0..<p]) = mset [0..<p]"
proof -
  have inj: "inj_on g {0..<p}"
    by (rule inj_on_inverseI [where g = h]) (simp add: assms(2))
  have "g ` {0..<p} \<subseteq> {0..<p}"
    using assms(1) by auto
  then have "g ` {0..<p} = {0..<p}"
    using inj by (intro endo_inj_surj) simp_all
  then have "set (map g [0..<p]) = set [0..<p]"
    by simp
  moreover have "distinct (map g [0..<p])"
    using inj by (simp add: distinct_map)
  ultimately show ?thesis
    using set_eq_iff_mset_eq_distinct [of "map g [0..<p]" "[0..<p]"] by simp
qed

lemma mset_reindexed:
  assumes "mset (map g [0..<length xs]) = mset [0..<length xs]"
  shows "mset (map (\<lambda>n. xs ! g n) [0..<length xs]) = mset xs"
proof -
  have "mset (map (\<lambda>n. xs ! g n) [0..<length xs])
      = image_mset ((!) xs) (mset (map g [0..<length xs]))"
    by (simp add: multiset.map_comp comp_def)
  also have "\<dots> = mset (map ((!) xs) [0..<length xs])"
    unfolding assms by simp
  also have "\<dots> = mset xs"
    by (simp only: map_nth)
  finally show ?thesis .
qed

lemma np_transpose_permutation:
  assumes "wf_array A" and "length axes = ndim A" and "distinct axes"
    and "\<forall>a \<in> set axes. a < ndim A"
  shows "\<exists>B. np_transpose A axes = Inr B \<and> shape B = map ((!) (shape A)) axes \<and> wf_array B
    \<and> (\<forall>idx. valid_index (shape A) idx \<longrightarrow>
          valid_index (shape B) (map ((!) idx) axes)
          \<and> item B (map ((!) idx) axes) = item A idx)
    \<and> mset (flat B) = mset (flat A)"
proof -
  let ?s = "shape A"
  let ?t = "map ((!) ?s) axes"
  let ?B = "from_function ?t (\<lambda>j. item A (source_index axes j))"
  note perm = assms(2-4) [unfolded ndim_def]
  have res: "np_transpose A axes = Inr ?B"
    using assms(2-4) by (simp add: np_transpose_def list_all_iff)
  have items: "valid_index ?t (map ((!) idx) axes) \<and> item ?B (map ((!) idx) axes) = item A idx"
    if v: "valid_index ?s idx" for idx
  proof -
    have g: "valid_index ?t (map ((!) idx) axes)"
      using perm(3) v by (rule valid_index_gather)
    have "source_index axes (map ((!) idx) axes) = idx"
      using perm valid_index_length [OF v] by (rule source_index_gather)
    with g show ?thesis
      by (simp add: item_from_function)
  qed
  have p: "prod_list ?t = length (flat A)"
    using prod_list_gather [OF perm] assms(1) by (simp add: wf_array_def)
  define g where "g n = ravel_index ?s (source_index axes (unravel_index ?t n))" for n
  define h where "h n = ravel_index ?t (map ((!) (unravel_index ?s n)) axes)" for n
  have src: "valid_index ?s (source_index axes (unravel_index ?t n))" if "n < prod_list ?t" for n
    using perm valid_unravel [OF that] by (rule valid_index_source)
  have g_less: "g n < length (flat A)" if "n < length (flat A)" for n
    using ravel_index_less [OF src] that assms(1) by (simp add: g_def p wf_array_def)
  have h_g: "h (g n) = n" if "n < length (flat A)" for n
  proof -
    have n: "n < prod_list ?t" using that by (simp add: p)
    have "length (unravel_index ?t n) = length ?s"
      using valid_index_length [OF valid_unravel [OF n]] perm(1) by simp
    then have "map ((!) (source_index axes (unravel_index ?t n))) axes = unravel_index ?t n"
      using perm by (intro gather_source_index) simp_all
    then show ?thesis
      by (simp add: h_def g_def unravel_ravel [OF src [OF n]] ravel_unravel [OF n])
  qed
  have "flat ?B = map (\<lambda>n. flat A ! g n) [0..<length (flat A)]"
    by (simp add: from_function_def p g_def item_def)
  moreover have "mset (map g [0..<length (flat A)]) = mset [0..<length (flat A)]"
    using g_less h_g by (rule mset_map_upt_permutation)
  ultimately have "mset (flat ?B) = mset (flat A)"
    by (simp only: mset_reindexed)
  with res items show ?thesis
    by (intro exI [of _ ?B]) simp
qed

section \<open>Rolling\<close>

lemma length_np_roll [simp]: "length (np_roll xs r) = length xs"
  by (auto simp: np_roll_def Let_def)

lemma set_np_roll [simp]: "set (np_roll xs r) = set xs"
proof (cases "xs = []")
  case True
  then show ?thesis by (simp add: np_roll_def)
next
  case False
  have "set (drop m xs) \<union> set (take m xs) = set xs" for m
    by (metis append_take_drop_id set_append sup_commute)
  with False show ?thesis by (simp add: np_roll_def Let_def)
qed

lemma distinct_np_roll: "distinct xs \<Longrightarrow> distinct (np_roll xs r)"
proof (cases "xs = []")
  case True
  then show ?thesis by (simp add: np_roll_def)
next
  case False
  assume d: "distinct xs"
  have "distinct (drop m xs @ take m xs)" for m
  proof -
    have "distinct (take m xs @ drop m xs)" using d by simp
    then show ?thesis by (simp only: distinct_append) blast
  qed
  with False show ?thesis by (simp add: np_roll_def Let_def)
qed

lemma map_np_roll: "map f (np_roll xs r) = np_roll (map f xs) r"
  by (simp add: np_roll_def Let_def drop_map take_map)

lemma nth_np_roll:
  assumes "k < length xs"
  shows "np_roll xs r ! k = xs ! nat ((int k - r) mod int (length xs))"
proof -
  let ?n = "length xs"
  define q where "q = nat (r mod int ?n)"
  have n: "0 < ?n" using assms by (cases xs) simp_all
  then have q: "q < ?n" and rq: "r mod int ?n = int q"
    by (simp_all add: q_def nat_less_iff)
  have ne: "xs \<noteq> []" using n by simp
  have roll: "np_roll xs r = drop (?n - q) xs @ take (?n - q) xs"
    using ne by (simp add: np_roll_def Let_def q_def)
  have m: "(int k - r) mod int ?n = (int k - int q) mod int ?n"
    using rq by (metis mod_diff_right_eq)
  show ?thesis
  proof (cases "k < q")
    case True
    have "(int k - int q) mod int ?n = (int k - int q + int ?n) mod int ?n"
      by simp
    also have "\<dots> = int k - int q + int ?n"
      using True q by (intro mod_pos_pos_trivial) simp_all
    finally have "nat ((int k - r) mod int ?n) = ?n - q + k"
      using m True q by simp
    moreover have "np_roll xs r ! k = xs ! (?n - q + k)"
      using True q by (simp add: roll nth_append)
    ultimately show ?thesis by simp
  next
    case False
    have "(int k - int q) mod int ?n = int k - int q"
      using False assms by (intro mod_pos_pos_trivial) simp_all
    then have "nat ((int k - r) mod int ?n) = k - q"
      using m False by simp
    moreover have "np_roll xs r ! k = xs ! (k - q)"
      using False q assms by (simp add: roll nth_append) 
    ultimately show ?thesis by simp
  qed
qed

lemma np_roll_inverse: "np_roll (np_roll xs r) (- r) = xs"
proof (rule nth_equalityI)
  show "length (np_roll (np_roll xs r) (- r)) = length xs" by simp
next
  fix k assume "k < length (np_roll (np_roll xs r) (- r))"
  then have k: "k < length xs" by simp
  let ?n = "int (length xs)"
  define j where "j = nat ((int k + r) mod ?n)"
  have "0 < ?n" using k by (cases xs) simp_all
  then have j: "j < length xs" and ij: "int j = (int k + r) mod ?n"
    by (simp_all add: j_def nat_less_iff)
  have "(int j - r) mod ?n = (int k + r - r) mod ?n"
    unfolding ij by (simp only: mod_diff_left_eq)
  also have "\<dots> = int k"
    using k by simp
  finally have "nat ((int j - r) mod ?n) = k" by simp
  moreover have "np_roll (np_roll xs r) (- r) ! k = np_roll xs r ! j"
    using k by (simp add: nth_np_roll j_def)
  ultimately show "np_roll (np_roll xs r) (- r) ! k = xs ! k"
    using j by (simp add: nth_np_roll)
qed

lemma np_roll_1: "xs \<noteq> [] \<Longrightarrow> np_roll xs 1 = last xs # butlast xs"
proof (induction xs rule: rev_induct)
  case Nil
  then show ?case by simp
next
  case (snoc x xs)
  show ?case
  proof (cases "xs = []")
    case True
    then show ?thesis by (simp add: np_roll_def)
  next
    case False
    then have "(1::int) mod (1 + int (length xs)) = 1"
      by (intro mod_pos_pos_trivial) simp_all
    then show ?thesis by (simp add: np_roll_def Let_def)
  qed
qed

lemma np_roll_minus_1: "xs \<noteq> [] \<Longrightarrow> np_roll xs (- 1) = tl xs @ [hd xs]"
proof (cases xs)
  case Nil
  assume "xs \<noteq> []"
  with Nil show ?thesis by simp
next
  case (Cons y ys)
  have "(- 1) mod (1 + int (length ys)) = int (length ys)"
    by (simp add: zmod_minus1)
  then show ?thesis by (simp add: Cons np_roll_def Let_def)
qed

lemma gather_np_roll:
  assumes "length xs = n"
  shows "map ((!) xs) (np_roll [0..<n] r) = np_roll xs r"
proof -
  have "map ((!) xs) (np_roll [0..<n] r) = np_roll (map ((!) xs) [0..<length xs]) r"
    by (simp only: map_np_roll assms)
  then show ?thesis by (simp only: map_nth)
qed

lemma fancy_transpose_roll:
  assumes "wf_array A"
  shows "\<exists>B. fancy_transpose A r = Inr B \<and> shape B = np_roll (shape A) r \<and> wf_array B
    \<and> (\<forall>idx. valid_index (shape A) idx \<longrightarrow>
          valid_index (shape B) (np_roll idx r) \<and> item B (np_roll idx r) = item A idx)
    \<and> mset (flat B) = mset (flat A)"
proof -
  let ?axes = "np_roll [0..<ndim A] r"
  have "length ?axes = ndim A" and "distinct ?axes" and "\<forall>a \<in> set ?axes. a < ndim A"
    by (simp_all add: distinct_np_roll)
  from np_transpose_permutation [OF assms this]
  obtain B where b: "np_transpose A ?axes = Inr B"
    and s: "shape B = map ((!) (shape A)) ?axes" and w: "wf_array B"
    and i: "\<forall>idx. valid_index (shape A) idx \<longrightarrow>
          valid_index (shape B) (map ((!) idx) ?axes) \<and> item B (map ((!) idx) ?axes) = item A idx"
    and m: "mset (flat B) = mset (flat A)"
    by blast
  have "fancy_transpose A r = Inr B"
    using b by (simp add: fancy_transpose_def np_arange_def)
  moreover have "shape B = np_roll (shape A) r"
    using s by (simp add: gather_np_roll ndim_def)
  moreover have "valid_index (shape B) (np_roll idx r) \<and> item B (np_roll idx r) = item A idx"
    if v: "valid_index (shape A) idx" for idx
  proof -
    have "map ((!) idx) ?axes = np_roll idx r"
      using valid_index_length [OF v] by (simp add: gather_np_roll ndim_def)
    with i v show ?thesis by auto
  qed
  ultimately show ?thesis using w m by blast
qed

section \<open>Axis-rolled transposition\<close>

text \<open>
  Claim C9. For an array \<open>A\<close> of \<open>N\<close> axes and an integer \<open>roll\<close>, \<open>fancy_transpose A roll\<close>
  returns the transposition of \<open>A\<close> by the axis order \<open>[0, ..., N - 1]\<close> rolled cyclically by
  \<open>roll\<close> positions (position \<open>k\<close> of the order holds axis \<open>(k - roll) mod N\<close>): shape and
  indices of the result are those of \<open>A\<close> rolled by \<open>roll\<close>. With \<open>roll = 1\<close> the last axis
  comes first, with \<open>roll = -1\<close> the first axis goes last. The result has the elements of
  \<open>A\<close>, as many of each.
\<close>

theorem fancy_transpose_rolls_axes:
  assumes "wf_array A"
  shows "(\<exists>B. fancy_transpose A r = Inr B
        \<and> np_transpose A (np_roll (np_arange (ndim A)) r) = Inr B
        \<and> shape B = np_roll (shape A) r \<and> wf_array B
        \<and> (\<forall>idx. valid_index (shape A) idx \<longrightarrow> item B (np_roll idx r) = item A idx)
        \<and> mset (flat B) = mset (flat A) \<and> length (flat B) = length (flat A))
    \<and> (\<forall>k < ndim A. int (np_roll (np_arange (ndim A)) r ! k) = (int k - r) mod int (ndim A))
    \<and> (1 \<le> ndim A \<longrightarrow>
         (\<exists>B. fancy_transpose A 1 = Inr B
            \<and> shape B = last (shape A) # butlast (shape A)
            \<and> (\<forall>idx. valid_index (shape A) idx \<longrightarrow>
                  item B (last idx # butlast idx) = item A idx)))
    \<and> (1 \<le> ndim A \<longrightarrow>
         (\<exists>B. fancy_transpose A (- 1) = Inr B
            \<and> shape B = tl (shape A) @ [hd (shape A)]
            \<and> (\<forall>idx. valid_index (shape A) idx \<longrightarrow>
                  item B (tl idx @ [hd idx]) = item A idx)))"
proof (intro conjI)
  from fancy_transpose_roll [OF assms, of r] obtain B
    where b: "fancy_transpose A r = Inr B" and s: "shape B = np_roll (shape A) r"
      and w: "wf_array B"
      and i: "\<forall>idx. valid_index (shape A) idx \<longrightarrow> item B (np_roll idx r) = item A idx"
      and m: "mset (flat B) = mset (flat A)"
    by blast
  have "np_transpose A (np_roll (np_arange (ndim A)) r) = Inr B"
    using b by (simp add: fancy_transpose_def)
  moreover have "length (flat B) = length (flat A)"
    using m by (rule mset_eq_length)
  ultimately show "\<exists>B. fancy_transpose A r = Inr B
        \<and> np_transpose A (np_roll (np_arange (ndim A)) r) = Inr B
        \<and> shape B = np_roll (shape A) r \<and> wf_array B
        \<and> (\<forall>idx. valid_index (shape A) idx \<longrightarrow> item B (np_roll idx r) = item A idx)
        \<and> mset (flat B) = mset (flat A) \<and> length (flat B) = length (flat A)"
    using b s w i m by blast
next
  have "int (np_roll [0..<ndim A] r ! k) = (int k - r) mod int (ndim A)" if "k < ndim A" for k
  proof -
    have "0 < int (ndim A)" using that by simp
    then have "nat ((int k - r) mod int (ndim A)) < ndim A"
      by (simp add: nat_less_iff)
    then show ?thesis
      using that by (simp add: nth_np_roll)
  qed
  then show "\<forall>k < ndim A. int (np_roll (np_arange (ndim A)) r ! k) = (int k - r) mod int (ndim A)"
    by (simp add: np_arange_def)
next
  show "1 \<le> ndim A \<longrightarrow>
         (\<exists>B. fancy_transpose A 1 = Inr B
            \<and> shape B = last (shape A) # butlast (shape A)
            \<and> (\<forall>idx. valid_index (shape A) idx \<longrightarrow>
                  item B (last idx # butlast idx) = item A idx))"
  proof
    assume "1 \<le> ndim A"
    then have ne: "shape A \<noteq> []" by (auto simp: ndim_def)
    from fancy_transpose_roll [OF assms, of 1] obtain B
      where b: "fancy_transpose A 1 = Inr B" and s: "shape B = np_roll (shape A) 1"
        and i: "\<forall>idx. valid_index (shape A) idx \<longrightarrow> item B (np_roll idx 1) = item A idx"
      by blast
    have "item B (last idx # butlast idx) = item A idx" if v: "valid_index (shape A) idx" for idx
    proof -
      have "idx \<noteq> []" using valid_index_length [OF v] ne by auto
      then have "np_roll idx 1 = last idx # butlast idx" by (rule np_roll_1)
      moreover have "item B (np_roll idx 1) = item A idx" using i v by blast
      ultimately show ?thesis by simp
    qed
    then show "\<exists>B. fancy_transpose A 1 = Inr B
            \<and> shape B = last (shape A) # butlast (shape A)
            \<and> (\<forall>idx. valid_index (shape A) idx \<longrightarrow>
                  item B (last idx # butlast idx) = item A idx)"
      using b s ne by (simp add: np_roll_1)
  qed
next
  show "1 \<le> ndim A \<longrightarrow>
         (\<exists>B. fancy_transpose A (- 1) = Inr B
            \<and> shape B = tl (shape A) @ [hd (shape A)]
            \<and> (\<forall>idx. valid_index (shape A) idx \<longrightarrow>
                  item B (tl idx @ [hd idx]) = item A idx))"
  proof
    assume "1 \<le> ndim A"
    then have ne: "shape A \<noteq> []" by (auto simp: ndim_def)
    from fancy_transpose_roll [OF assms, of "- 1"] obtain B
      where b: "fancy_transpose A (- 1) = Inr B" and s: "shape B = np_roll (shape A) (- 1)"
        and i: "\<forall>idx. valid_index (shape A) idx \<longrightarrow> item B (np_roll idx (- 1)) = item A idx"
      by blast
    have "item B (tl idx @ [hd idx]) = item A idx" if v: "valid_index (shape A) idx" for idx
    proof -
      have "idx \<noteq> []" using valid_index_length [OF v] ne by auto
      then have "np_roll idx (- 1) = tl idx @ [hd idx]" by (rule np_roll_minus_1)
      moreover have "item B (np_roll idx (- 1)) = item A idx" using i v by blast
      ultimately show ?thesis by simp
    qed
    then show "\<exists>B. fancy_transpose A (- 1) = Inr B
            \<and> shape B = tl (shape A) @ [hd (shape A)]
            \<and> (\<forall>idx. valid_index (shape A) idx \<longrightarrow>
                  item B (tl idx @ [hd idx]) = item A idx)"
      using b s ne by (simp add: np_roll_minus_1)
  qed
qed

theorem fancy_transpose_rolls_axes_witness:
  "wf_array (NDArray [2, 3] [0, 1, 2, 3, 4, 5 :: int])
    \<and> (\<exists>B. fancy_transpose (NDArray [2, 3] [0, 1, 2, 3, 4, 5 :: int]) 1 = Inr B
          \<and> shape B = [3, 2] \<and> item B [2, 1] = 5 \<and> item B [1, 0] = 1
          \<and> mset (flat B) = mset [0, 1, 2, 3, 4, 5])
    \<and> np_roll (np_arange (ndim (NDArray [2, 3] [0, 1, 2, 3, 4, 5 :: int]))) 1 ! 0 = 1
    \<and> (\<exists>B. fancy_transpose (NDArray [2, 3] [0, 1, 2, 3, 4, 5 :: int]) (- 1) = Inr B
          \<and> shape B = [3, 2] \<and> item B [2, 0] = 2)"
proof -
  let ?A = "NDArray [2, 3] [0, 1, 2, 3, 4, 5 :: int]"
  have w: "wf_array ?A" by (simp add: wf_array_def)
  have n: "ndim ?A = 2" by (simp add: ndim_def)
  note t = fancy_transpose_rolls_axes [OF w, of 1]
  from t obtain B where b: "fancy_transpose ?A 1 = Inr B"
    and s: "shape B = np_roll (shape ?A) 1"
    and i: "\<forall>idx. valid_index (shape ?A) idx \<longrightarrow> item B (np_roll idx 1) = item ?A idx"
    and m: "mset (flat B) = mset (flat ?A)"
    by blast
  have "shape B = [3, 2]"
    using s by (simp add: np_roll_def)
  moreover have "item B [2, 1] = 5"
    using i [rule_format, of "[1, 2]"] by (simp add: valid_index_def np_roll_def item_def)
  moreover have "item B [1, 0] = 1"
    using i [rule_format, of "[0, 1]"] by (simp add: valid_index_def np_roll_def item_def)
  moreover from t have "\<forall>k < ndim ?A. int (np_roll (np_arange (ndim ?A)) 1 ! k)
      = (int k - 1) mod int (ndim ?A)"
    by blast
  then have "int (np_roll (np_arange (ndim ?A)) 1 ! 0) = (int 0 - 1) mod int (ndim ?A)"
    by (simp add: n)
  then have "np_roll (np_arange (ndim ?A)) 1 ! 0 = 1"
    by (simp add: n)
  moreover from t n obtain C where c: "fancy_transpose ?A (- 1) = Inr C"
    and sc: "shape C = tl (shape ?A) @ [hd (shape ?A)]"
    and ic: "\<forall>idx. valid_index (shape ?A) idx \<longrightarrow> item C (tl idx @ [hd idx]) = item ?A idx"
    by auto
  have "item C [2, 0] = 2"
    using ic [rule_format, of "[0, 2]"] by (simp add: valid_index_def item_def)
  ultimately show ?thesis
    using w b m c sc by simp
qed

text \<open>
  Claim C10. A roll of \<open>+1\<close> followed by a roll of \<open>-1\<close> gives the array back, \<open>ftr\<close> is
  \<open>fancy_transpose\<close> with roll 1 and \<open>ftl\<close> is \<open>fancy_transpose\<close> with roll \<open>-1\<close>.
\<close>

theorem fancy_transpose_round_trip:
  assumes "wf_array A"
  shows "bind_result (fancy_transpose A 1) (\<lambda>B. fancy_transpose B (- 1)) = Inr A
    \<and> ftr A = fancy_transpose A 1 \<and> ftl A = fancy_transpose A (- 1)"
proof (intro conjI)
  from fancy_transpose_roll [OF assms, of 1] obtain B
    where b: "fancy_transpose A 1 = Inr B" and sb: "shape B = np_roll (shape A) 1"
      and wb: "wf_array B"
      and ib: "\<forall>idx. valid_index (shape A) idx \<longrightarrow>
          valid_index (shape B) (np_roll idx 1) \<and> item B (np_roll idx 1) = item A idx"
    by blast
  from fancy_transpose_roll [OF wb, of "- 1"] obtain C
    where c: "fancy_transpose B (- 1) = Inr C" and sc: "shape C = np_roll (shape B) (- 1)"
      and wc: "wf_array C"
      and ic: "\<forall>j. valid_index (shape B) j \<longrightarrow> item C (np_roll j (- 1)) = item B j"
    by blast
  have shape: "shape C = shape A"
    by (simp add: sc sb np_roll_inverse)
  have "item C idx = item A idx" if v: "valid_index (shape C) idx" for idx
  proof -
    from v ib have "valid_index (shape B) (np_roll idx 1)"
      and "item B (np_roll idx 1) = item A idx"
      by (simp_all add: shape)
    with ic have "item C (np_roll (np_roll idx 1) (- 1)) = item A idx"
      by simp
    then show ?thesis by (simp add: np_roll_inverse)
  qed
  with wc assms shape have "C = A"
    by (intro array_ext) simp_all
  with b c show "bind_result (fancy_transpose A 1) (\<lambda>B. fancy_transpose B (- 1)) = Inr A"
    by simp
next
  show "ftr A = fancy_transpose A 1"
    by (simp add: ftr_def roll_default_def)
next
  show "ftl A = fancy_transpose A (- 1)"
    by (simp add: ftl_def)
qed

theorem fancy_transpose_round_trip_witness:
  "wf_array (NDArray [2, 3] [0, 1, 2, 3, 4, 5 :: int])
    \<and> fancy_transpose (NDArray [2, 3] [0, 1, 2, 3, 4, 5 :: int]) 1
        = Inr (NDArray [3, 2] [0, 3, 1, 4, 2, 5])
    \<and> fancy_transpose (NDArray [3, 2] [0, 3, 1, 4, 2, 5 :: int]) (- 1)
        = Inr (NDArray [2, 3] [0, 1, 2, 3, 4, 5])
    \<and> ftr (NDArray [2, 3] [0, 1, 2, 3, 4, 5 :: int]) = Inr (NDArray [3, 2] [0, 3, 1, 4, 2, 5])"
proof -
  let ?A = "NDArray [2, 3] [0, 1, 2, 3, 4, 5 :: int]"
  have w: "wf_array ?A" by (simp add: wf_array_def)
  have f: "fancy_transpose ?A 1 = Inr (NDArray [3, 2] [0, 3, 1, 4, 2, 5])"
    by code_simp
  note t = fancy_transpose_round_trip [OF w]
  from t f have "fancy_transpose (NDArray [3, 2] [0, 3, 1, 4, 2, 5 :: int]) (- 1) = Inr ?A"
    by simp
  moreover from t f have "ftr ?A = Inr (NDArray [3, 2] [0, 3, 1, 4, 2, 5])"
    by simp
  ultimately show ?thesis using w f by simp
qed

section \<open>The examples of the docstrings\<close>

text \<open>The model reproduces the outputs that the docstrings of \<^verbatim>\<open>rotate_stack\<close> and
  \<^verbatim>\<open>fancy_transpose\<close> show.\<close>

lemma rotate_stack_docstring_example:
  "rotate_stack (NDArray [2, 3, 3]
      [0, 1, 2, 3, 4, 5, 6, 7, 8, 9, 10, 11, 12, 13, 14, 15, 16, 17 :: int])
    = Inr (NDArray [2, 3, 3]
      [8, 7, 6, 5, 4, 3, 2, 1, 0, 17, 16, 15, 14, 13, 12, 11, 10, 9])"
  by code_simp

lemma fancy_transpose_docstring_example_right:
  "fancy_transpose (NDArray [3, 3, 3]
      [0, 1, 2, 3, 4, 5, 6, 7, 8, 9, 10, 11, 12, 13, 14, 15, 16, 17, 18, 19, 20, 21, 22,
       23, 24, 25, 26 :: int]) 1
    = Inr (NDArray [3, 3, 3]
      [0, 3, 6, 9, 12, 15, 18, 21, 24, 1, 4, 7, 10, 13, 16, 19, 22, 25, 2, 5, 8, 11, 14,
       17, 20, 23, 26])"
  by code_simp

lemma fancy_transpose_docstring_example_left:
  "fancy_transpose (NDArray [3, 3, 3]
      [0, 1, 2, 3, 4, 5, 6, 7, 8, 9, 10, 11, 12, 13, 14, 15, 16, 17, 18, 19, 20, 21, 22,
       23, 24, 25, 26 :: int]) (- 1)
    = Inr (NDArray [3, 3, 3]
      [0, 9, 18, 1, 10, 19, 2, 11, 20, 3, 12, 21, 4, 13, 22, 5, 14, 23, 6, 15, 24, 7, 16,
       25, 8, 17, 26])"
  by code_simp

section \<open>Bin centres\<close>

lemma length_x_bins: "length (x_bins ar vals) = length vals - 1"
  by (simp add: x_bins_def)

lemma nth_x_bins:
  assumes "Suc i < length vals"
  shows "x_bins ar vals ! i = arr_div2 ar (arr_add ar (vals ! i) (vals ! Suc i))"
proof -
  have "i < length (butlast vals)" and "i < length (tl vals)"
    using assms by simp_all
  then show ?thesis
    by (simp add: x_bins_def nth_butlast nth_tl)
qed

lemma x_bins_step_Inr:
  assumes "2 \<le> length vals"
  shows "x_bins_step ar vals
    = Inr (map (\<lambda>c. arr_shift ar c (sc_div2 ar (sc_sub ar (vals ! 1) (vals ! 0))))
            (x_bins ar vals))"
  using assms by (simp add: x_bins_step_def)

subsection \<open>Rounding to 53 bits keeps what fits\<close>

lemma round53_exact:
  assumes "\<bar>k\<bar> \<le> 2 ^ 53"
  shows "round53 (k * 2 ^ j) = k * 2 ^ j"
proof (cases "k = 0")
  case True
  then show ?thesis by (simp add: round53_def)
next
  case False
  define m where "m = \<bar>k * 2 ^ j\<bar>"
  define e where "e = nat (bitlen m - 53)"
  have m: "m = \<bar>k\<bar> * 2 ^ j"
    by (simp add: m_def abs_mult)
  have pos: "0 < \<bar>k\<bar>" using False by simp
  have len: "bitlen m = bitlen \<bar>k\<bar> + int j"
    unfolding m using pos by (rule bitlen_pow2)
  have dvd: "2 ^ e dvd m"
  proof (cases "\<bar>k\<bar> = 2 ^ 53")
    case True
    have "bitlen \<bar>k\<bar> \<le> 54"
      using True by (simp add: bitlen_le_iff_power)
    then have "e \<le> 53 + j"
      using len by (simp add: e_def)
    then have "(2::int) ^ e dvd 2 ^ (53 + j)"
      by (rule le_imp_power_dvd)
    then show ?thesis
      by (simp add: m True power_add)
  next
    case False
    with assms have "\<bar>k\<bar> < 2 ^ 53" by simp
    then have "bitlen \<bar>k\<bar> \<le> 53"
      by (simp add: bitlen_le_iff_power)
    then have "e \<le> j"
      using len by (simp add: e_def)
    then have "(2::int) ^ e dvd 2 ^ j"
      by (rule le_imp_power_dvd)
    then show ?thesis
      by (simp add: m)
  qed
  then have r: "m mod 2 ^ e = 0" and q: "m div 2 ^ e * 2 ^ e = m"
    by simp_all
  have "round53 (k * 2 ^ j) = sgn (k * 2 ^ j) * (m div 2 ^ e * 2 ^ e)"
    unfolding round53_def Let_def m_def [symmetric] e_def [symmetric] by (simp add: r)
  also have "\<dots> = sgn (k * 2 ^ j) * \<bar>k * 2 ^ j\<bar>"
    using q by (simp only: m_def)
  also have "\<dots> = k * 2 ^ j"
    by (simp only: sgn_mult_abs)
  finally show ?thesis .
qed

lemma round53_small: "\<bar>k\<bar> \<le> 2 ^ 53 \<Longrightarrow> round53 k = k"
  using round53_exact [of k 0] by simp

lemma sint_add_int64:
  fixes a b :: "64 word"
  assumes "\<bar>sint a + sint b\<bar> \<le> 2 ^ 53"
  shows "sint (a + b) = sint a + sint b"
proof -
  have "- (2 ^ 63) \<le> sint a + sint b" and "sint a + sint b < 2 ^ 63"
    using assms by simp_all
  then show ?thesis
    by (simp add: sint_word_add signed_take_bit_int_eq_self)
qed

lemma sint_sub_int64:
  fixes a b :: "64 word"
  assumes "\<bar>sint a - sint b\<bar> \<le> 2 ^ 53"
  shows "sint (a - b) = sint a - sint b"
proof -
  have "- (2 ^ 63) \<le> sint a - sint b" and "sint a - sint b < 2 ^ 63"
    using assms by simp_all
  then show ?thesis
    by (simp add: sint_word_diff signed_take_bit_int_eq_self)
qed

lemma int64_div2_exact:
  "\<bar>sint w\<bar> \<le> 2 ^ 53 \<Longrightarrow> int64_div2 w = real_of_int (sint w) / 2"
  by (simp add: int64_div2_def float64_of_int64_def round53_small)

lemma float64_add_exact:
  assumes "\<bar>a + b\<bar> \<le> 2 ^ 53"
  shows "float64_add (real_of_int a / 2) (real_of_int b / 2)
    = real_of_int a / 2 + real_of_int b / 2"
proof -
  have "(real_of_int a / 2 + real_of_int b / 2) * 2 ^ 1074 = real_of_int ((a + b) * 2 ^ 1073)"
    by simp
  then have "\<lfloor>(real_of_int a / 2 + real_of_int b / 2) * 2 ^ 1074\<rfloor> = (a + b) * 2 ^ 1073"
    by (simp only: floor_of_int)
  then have "float64_add (real_of_int a / 2) (real_of_int b / 2)
      = real_of_int ((a + b) * 2 ^ 1073) / 2 ^ 1074"
    by (simp only: float64_add_def round53_exact [OF assms])
  also have "\<dots> = real_of_int a / 2 + real_of_int b / 2"
    by simp
  finally show ?thesis .
qed

text \<open>
  Claim C7, as the code has it. For a sequence \<open>V\<close> of \<open>N \<ge> 2\<close> edges, \<open>x_bins V\<close> has
  \<open>N - 1\<close> elements, and the element at every index \<open>i < N - 1\<close> is \<open>V[i] + V[i+1]\<close>
  divided by \<open>2.0\<close>, sum and division as numpy computes them for the dtype of \<open>V\<close>. On an
  int64 array this is the exact \<open>(V[i] + V[i+1]) / 2\<close> whenever the exact sum is at most
  \<open>2 ^ 53\<close> in magnitude.
\<close>

theorem x_bins_centres:
  fixes V :: "'a list" and ar :: "('a, 'f, 'g) arithmetic" and W :: "64 word list"
  assumes "2 \<le> length V"
  shows "length (x_bins ar V) = length V - 1
    \<and> (\<forall>i < length V - 1. x_bins ar V ! i = arr_div2 ar (arr_add ar (V ! i) (V ! (i + 1))))
    \<and> (\<forall>i < length W - 1. \<bar>sint (W ! i) + sint (W ! (i + 1))\<bar> \<le> 2 ^ 53 \<longrightarrow>
          x_bins int64_arith W ! i
            = (real_of_int (sint (W ! i)) + real_of_int (sint (W ! (i + 1)))) / 2)"
proof (intro conjI allI impI)
  show "length (x_bins ar V) = length V - 1"
    by (rule length_x_bins)
next
  fix i assume "i < length V - 1"
  then show "x_bins ar V ! i = arr_div2 ar (arr_add ar (V ! i) (V ! (i + 1)))"
    by (simp add: nth_x_bins)
next
  fix i assume i: "i < length W - 1"
    and small: "\<bar>sint (W ! i) + sint (W ! (i + 1))\<bar> \<le> 2 ^ 53"
  have "x_bins int64_arith W ! i = int64_div2 (W ! i + W ! (i + 1))"
    using i by (simp add: nth_x_bins int64_arith_def)
  also have "\<dots> = real_of_int (sint (W ! i + W ! (i + 1))) / 2"
    using small by (intro int64_div2_exact) (simp only: sint_add_int64)
  also have "\<dots> = (real_of_int (sint (W ! i)) + real_of_int (sint (W ! (i + 1)))) / 2"
    using small by (simp only: sint_add_int64 of_int_add)
  finally show "x_bins int64_arith W ! i
      = (real_of_int (sint (W ! i)) + real_of_int (sint (W ! (i + 1)))) / 2" .
qed

theorem x_bins_centres_witness:
  "2 \<le> length [1, 3, 7 :: 64 word]
    \<and> length (x_bins int64_arith [1, 3, 7]) = 2
    \<and> x_bins int64_arith [1, 3, 7] ! 0 = 2 \<and> x_bins int64_arith [1, 3, 7] ! 1 = 5"
proof -
  have h: "2 \<le> length [1, 3, 7 :: 64 word]" by simp
  note t = x_bins_centres [OF h, of int64_arith "[1, 3, 7]"]
  have "length (x_bins int64_arith [1, 3, 7]) = 2" using t by simp
  moreover have "x_bins int64_arith [1, 3, 7] ! 0 = 2"
    using t [THEN conjunct2, THEN conjunct2, rule_format, of 0] by simp
  moreover have "x_bins int64_arith [1, 3, 7] ! 1 = 5"
    using t [THEN conjunct2, THEN conjunct2, rule_format, of 1] by simp
  ultimately show ?thesis using h by simp
qed

text \<open>
  Claim C7 as stated fails where the arithmetic of the array is not exact: the int64 sum
  of \<open>2 ^ 63 - 1\<close> and \<open>2 ^ 63 - 1\<close> wraps around to \<open>-2\<close>, so that the code returns \<open>-1\<close>
  where \<open>(V[0] + V[1]) / 2\<close> is \<open>2 ^ 63 - 1\<close>.
\<close>

theorem x_bins_int64_wrap_counterexample:
  "x_bins int64_arith [9223372036854775807, 9223372036854775807] ! 0 = - 1
    \<and> (real_of_int (sint (9223372036854775807 :: 64 word))
        + real_of_int (sint (9223372036854775807 :: 64 word))) / 2 = 9223372036854775807"
proof
  have "sint (9223372036854775807 + 9223372036854775807 :: 64 word) = - 2"
    by simp
  then have "int64_div2 (9223372036854775807 + 9223372036854775807) = - 1"
    by (simp add: int64_div2_def float64_of_int64_def round53_small)
  then show "x_bins int64_arith [9223372036854775807, 9223372036854775807] ! 0 = - 1"
    by (simp add: x_bins_def int64_arith_def)
next
  show "(real_of_int (sint (9223372036854775807 :: 64 word))
        + real_of_int (sint (9223372036854775807 :: 64 word))) / 2 = 9223372036854775807"
    by simp
qed

text \<open>
  Claim C8, as the code has it. For a sequence \<open>V\<close> of \<open>N \<ge> 2\<close> edges, \<open>x_bins_step V\<close>
  returns \<open>N - 1\<close> elements, and the element at every index \<open>i\<close> is the sum of
  \<open>x_bins V ! i\<close> and of \<open>V[1] - V[0]\<close> divided by \<open>2.0\<close>, all three operations as numpy
  computes them for the dtype of \<open>V\<close>: the offset comes from the first two edges, whatever
  the widths of the other bins. On an int64 array the element is the exact
  \<open>x_bins V ! i + (V[1] - V[0]) / 2\<close> whenever \<open>V[i] + V[i+1]\<close> and \<open>V[1] - V[0]\<close> are at
  most \<open>2 ^ 52\<close> in magnitude.
\<close>

theorem x_bins_step_shift:
  fixes V :: "'a list" and ar :: "('a, 'f, 'g) arithmetic" and W :: "64 word list"
  assumes "2 \<le> length V"
  shows "(\<exists>R. x_bins_step ar V = Inr R \<and> length R = length V - 1
        \<and> (\<forall>i < length V - 1.
              R ! i = arr_shift ar (x_bins ar V ! i) (sc_div2 ar (sc_sub ar (V ! 1) (V ! 0)))))
    \<and> (2 \<le> length W \<longrightarrow>
         (\<exists>R. x_bins_step int64_arith W = Inr R
            \<and> (\<forall>i < length W - 1.
                  \<bar>sint (W ! i) + sint (W ! (i + 1))\<bar> \<le> 2 ^ 52 \<longrightarrow>
                  \<bar>sint (W ! 1) - sint (W ! 0)\<bar> \<le> 2 ^ 52 \<longrightarrow>
                  R ! i = x_bins int64_arith W ! i
                    + (real_of_int (sint (W ! 1)) - real_of_int (sint (W ! 0))) / 2)))"
proof
  show "\<exists>R. x_bins_step ar V = Inr R \<and> length R = length V - 1
        \<and> (\<forall>i < length V - 1.
              R ! i = arr_shift ar (x_bins ar V ! i) (sc_div2 ar (sc_sub ar (V ! 1) (V ! 0))))"
    by (simp add: x_bins_step_Inr [OF assms] length_x_bins)
next
  show "2 \<le> length W \<longrightarrow>
         (\<exists>R. x_bins_step int64_arith W = Inr R
            \<and> (\<forall>i < length W - 1.
                  \<bar>sint (W ! i) + sint (W ! (i + 1))\<bar> \<le> 2 ^ 52 \<longrightarrow>
                  \<bar>sint (W ! 1) - sint (W ! 0)\<bar> \<le> 2 ^ 52 \<longrightarrow>
                  R ! i = x_bins int64_arith W ! i
                    + (real_of_int (sint (W ! 1)) - real_of_int (sint (W ! 0))) / 2))"
  proof
    assume len: "2 \<le> length W"
    let ?R = "map (\<lambda>c. float64_add c (int64_div2 (W ! 1 - W ! 0))) (x_bins int64_arith W)"
    have res: "x_bins_step int64_arith W = Inr ?R"
      by (simp add: x_bins_step_Inr [OF len] int64_arith_def)
    have "?R ! i = x_bins int64_arith W ! i
        + (real_of_int (sint (W ! 1)) - real_of_int (sint (W ! 0))) / 2"
      if i: "i < length W - 1"
        and s: "\<bar>sint (W ! i) + sint (W ! (i + 1))\<bar> \<le> 2 ^ 52"
        and d: "\<bar>sint (W ! 1) - sint (W ! 0)\<bar> \<le> 2 ^ 52"
      for i
    proof -
      define a where "a = sint (W ! i) + sint (W ! (i + 1))"
      define b where "b = sint (W ! 1) - sint (W ! 0)"
      have a53: "\<bar>a\<bar> \<le> 2 ^ 53" and b53: "\<bar>b\<bar> \<le> 2 ^ 53" and ab: "\<bar>a + b\<bar> \<le> 2 ^ 53"
        using s d by (simp_all add: a_def b_def)
      have sa: "sint (W ! i + W ! (i + 1)) = a"
        using a53 unfolding a_def by (rule sint_add_int64)
      have sb: "sint (W ! 1 - W ! 0) = b"
        using b53 unfolding b_def by (rule sint_sub_int64)
      have "x_bins int64_arith W ! i = int64_div2 (W ! i + W ! (i + 1))"
        using i by (simp add: nth_x_bins int64_arith_def)
      also have "\<dots> = real_of_int (sint (W ! i + W ! (i + 1))) / 2"
        by (rule int64_div2_exact) (simp only: sa a53)
      finally have c: "x_bins int64_arith W ! i = real_of_int a / 2"
        by (simp only: sa)
      have "int64_div2 (W ! 1 - W ! 0) = real_of_int (sint (W ! 1 - W ! 0)) / 2"
        by (rule int64_div2_exact) (simp only: sb b53)
      then have o: "int64_div2 (W ! 1 - W ! 0) = real_of_int b / 2"
        by (simp only: sb)
      have "?R ! i = float64_add (x_bins int64_arith W ! i) (int64_div2 (W ! 1 - W ! 0))"
        using i by (simp add: length_x_bins)
      also have "\<dots> = float64_add (real_of_int a / 2) (real_of_int b / 2)"
        by (simp only: c o)
      also have "\<dots> = real_of_int a / 2 + real_of_int b / 2"
        using ab by (rule float64_add_exact)
      finally show ?thesis
        by (simp add: c b_def)
    qed
    with res show "\<exists>R. x_bins_step int64_arith W = Inr R
            \<and> (\<forall>i < length W - 1.
                  \<bar>sint (W ! i) + sint (W ! (i + 1))\<bar> \<le> 2 ^ 52 \<longrightarrow>
                  \<bar>sint (W ! 1) - sint (W ! 0)\<bar> \<le> 2 ^ 52 \<longrightarrow>
                  R ! i = x_bins int64_arith W ! i
                    + (real_of_int (sint (W ! 1)) - real_of_int (sint (W ! 0))) / 2)"
      by blast
  qed
qed

theorem x_bins_step_shift_witness:
  "2 \<le> length [1, 3, 7 :: 64 word]
    \<and> (\<exists>R. x_bins_step int64_arith [1, 3, 7] = Inr R \<and> length R = 2
          \<and> R ! 0 = x_bins int64_arith [1, 3, 7] ! 0 + 1 \<and> R ! 1 = x_bins int64_arith [1, 3, 7] ! 1 + 1)"
proof -
  have h: "2 \<le> length [1, 3, 7 :: 64 word]" by simp
  note t = x_bins_step_shift [OF h, of int64_arith "[1, 3, 7]"]
  from t obtain R where r: "x_bins_step int64_arith [1, 3, 7] = Inr R"
    and l: "length R = length [1, 3, 7 :: 64 word] - 1"
    by blast
  from t h obtain R' where r': "x_bins_step int64_arith [1, 3, 7] = Inr R'"
    and e: "\<forall>i < length [1, 3, 7 :: 64 word] - 1.
        \<bar>sint ([1, 3, 7 :: 64 word] ! i) + sint ([1, 3, 7 :: 64 word] ! (i + 1))\<bar> \<le> 2 ^ 52 \<longrightarrow>
        \<bar>sint ([1, 3, 7 :: 64 word] ! 1) - sint ([1, 3, 7 :: 64 word] ! 0)\<bar> \<le> 2 ^ 52 \<longrightarrow>
        R' ! i = x_bins int64_arith [1, 3, 7] ! i
          + (real_of_int (sint ([1, 3, 7 :: 64 word] ! 1))
             - real_of_int (sint ([1, 3, 7 :: 64 word] ! 0))) / 2"
    by blast
  from r r' have same: "R' = R" by simp
  have "R ! 0 = x_bins int64_arith [1, 3, 7] ! 0 + 1"
    using e [rule_format, of 0] by (simp add: same)
  moreover have "R ! 1 = x_bins int64_arith [1, 3, 7] ! 1 + 1"
    using e [rule_format, of 1] by (simp add: same)
  ultimately show ?thesis using h r l by simp
qed

text \<open>
  Claim C8 as stated fails where the arithmetic of the array is not exact: on the int64
  edges \<open>-2 ^ 63\<close> and \<open>2 ^ 63 - 1\<close> the difference \<open>V[1] - V[0]\<close> wraps around to \<open>-1\<close>, so
  that the code returns \<open>-1\<close> where \<open>x_bins V ! 0 + (V[1] - V[0]) / 2\<close> is \<open>2 ^ 63 - 1\<close>.
\<close>

theorem x_bins_step_int64_wrap_counterexample:
  "x_bins_step int64_arith [- 9223372036854775808, 9223372036854775807] = Inr [- 1]
    \<and> x_bins int64_arith [- 9223372036854775808, 9223372036854775807] ! 0
        + (real_of_int (sint (9223372036854775807 :: 64 word))
           - real_of_int (sint (- 9223372036854775808 :: 64 word))) / 2
      = 9223372036854775807"
proof -
  have h: "int64_div2 (- 1) = - 1 / 2"
    by (simp add: int64_div2_exact)
  have x: "x_bins int64_arith [- 9223372036854775808, 9223372036854775807] = [- 1 / 2]"
    by (simp add: x_bins_def int64_arith_def h)
  have "float64_add (real_of_int (- 1) / 2) (real_of_int (- 1) / 2)
      = real_of_int (- 1) / 2 + real_of_int (- 1) / 2"
    by (rule float64_add_exact) simp
  then have a: "float64_add (- (1 / 2)) (- (1 / 2)) = - 1"
    by simp
  have h': "int64_div2 18446744073709551615 = - 1 / 2"
    by (simp add: int64_div2_exact)
  have "x_bins_step int64_arith [- 9223372036854775808, 9223372036854775807]
      = Inr (map (\<lambda>c. arr_shift int64_arith c
            (sc_div2 int64_arith (sc_sub int64_arith
              ([- 9223372036854775808, 9223372036854775807] ! 1)
              ([- 9223372036854775808, 9223372036854775807] ! 0)))) [- 1 / 2])"
    by (simp only: x [symmetric]) (rule x_bins_step_Inr, simp)
  then have "x_bins_step int64_arith [- 9223372036854775808, 9223372036854775807] = Inr [- 1]"
    by (simp add: int64_arith_def h' a)
  moreover have "x_bins int64_arith [- 9223372036854775808, 9223372036854775807] ! 0
        + (real_of_int (sint (9223372036854775807 :: 64 word))
           - real_of_int (sint (- 9223372036854775808 :: 64 word))) / 2
      = 9223372036854775807"
    by (simp add: x)
  ultimately show ?thesis by simp
qed

end
